theory Spec2Isabelle
  imports Complex_Main "HOL-Library.Sublist" "HOL-Library.AList"
    "HOL-Library.Char_ord" "HOL-Library.List_Lexorder" "HOL-Library.Word"
begin

section \<open>Shared model: errors, paths and the workspace file system\<close>

text \<open>
  The scripts communicate through the file system only. Every Python exception and every
  \<^verbatim>\<open>sys.exit\<close> of the sources is a value of \<open>error\<close>; a function that can
  raise returns \<open>error + 'a\<close>.
\<close>

datatype error =
    SystemExit int
  | ZeroDivisionError
  | OverflowError
  | Cv2Error
  | FileExistsError
  | FileNotFoundError
  | NotADirectoryError
  | IsADirectoryError
  | IndexError
  | ModelError string

text \<open>
  A \<^verbatim>\<open>pathlib.Path\<close> is its list of components; \<open>p @ [n]\<close> is \<^verbatim>\<open>p / n\<close>.
  The empty path is the directory the relative paths start from.
\<close>

type_synonym path = "string list"

datatype 'c node = Dir | File 'c

type_synonym 'c fs = "(path \<times> 'c node) list"

definition exists :: "'c fs \<Rightarrow> path \<Rightarrow> bool" where
  "exists fs p = (p = [] \<or> map_of fs p \<noteq> None)"

definition is_dir :: "'c fs \<Rightarrow> path \<Rightarrow> bool" where
  "is_dir fs p = (p = [] \<or> map_of fs p = Some Dir)"

text \<open>
  \<^verbatim>\<open>Path.mkdir(parents=True, exist_ok=True)\<close> and \<^verbatim>\<open>os.makedirs(p, exist_ok=True)\<close>:
  every missing ancestor and the path itself are created; an existing directory is accepted;
  a regular file in the way raises.
\<close>

fun mkdirs :: "'c fs \<Rightarrow> path \<Rightarrow> path list \<Rightarrow> error + 'c fs" where
  "mkdirs fs target [] = Inr fs"
| "mkdirs fs target (p # ps) =
     (case map_of fs p of
        Some (File c) \<Rightarrow> Inl (if p = target then FileExistsError else NotADirectoryError)
      | Some Dir \<Rightarrow> mkdirs fs target ps
      | None \<Rightarrow> mkdirs (fs @ [(p, Dir)]) target ps)"

definition mkdir_p :: "'c fs \<Rightarrow> path \<Rightarrow> error + 'c fs" where
  "mkdir_p fs p = mkdirs fs p (tl (prefixes p))"

text \<open>
  \<^verbatim>\<open>cv2.imwrite\<close> does not raise when the file cannot be created (missing directory,
  a directory of that name): it returns False, which both callers ignore.
\<close>

definition imwrite :: "'c fs \<Rightarrow> path \<Rightarrow> 'c \<Rightarrow> 'c fs" where
  "imwrite fs p c =
     (if p \<noteq> [] \<and> is_dir fs (butlast p) \<and> map_of fs p \<noteq> Some Dir
      then AList.update p (File c) fs else fs)"

section \<open>Frame sampler: \<^verbatim>\<open>Training/extract_frames.py\<close>\<close>

subsection \<open>Python number semantics used by the resize step\<close>

text \<open>
  \<^verbatim>\<open>height / width\<close> is Python's true division of two ints and
  \<^verbatim>\<open>resize_width * aspect_ratio\<close> an int-times-float product: both are binary64
  operations, correctly rounded to nearest, ties to even. A finite binary64 value is
  represented by the rational it denotes. \<open>fl64\<close> rounds a rational to binary64
  (a 53-bit significand \<open>m\<close> at exponent \<open>e\<close>, \<open>e\<close> not below that of the
  subnormals); a rounded magnitude \<open>m * 2 ^ e\<close> of \<open>2 ^ 1024\<close> or more, that is one
  of more than 1024 bits, is the \<^verbatim>\<open>OverflowError\<close> that
  the int-to-float conversion, the division, or \<^verbatim>\<open>int()\<close> of an infinite product raises.
\<close>

function bitlen :: "int \<Rightarrow> int" where
  "bitlen n = (if n \<le> 0 then 0 else 1 + bitlen (n div 2))"
  by pat_completeness auto
termination
  by (relation "measure nat") auto

declare bitlen.simps [simp del]

definition pow2 :: "int \<Rightarrow> rat" where
  "pow2 e = (if 0 \<le> e then 2 ^ nat e else 1 / 2 ^ nat (- e))"

definition ilog2 :: "rat \<Rightarrow> int" where
  \<comment> \<open>for \<open>0 < x\<close>: the \<open>n\<close> with \<open>2 ^ n \<le> x < 2 ^ (n + 1)\<close>\<close>
  "ilog2 x =
     (let (p, q) = quotient_of x;
          d = bitlen p - bitlen q
      in if pow2 d \<le> x then d else d - 1)"

definition round_half_even :: "rat \<Rightarrow> int" where
  "round_half_even x =
     (let f = \<lfloor>x\<rfloor>; d = x - of_int f
      in if d < 1 / 2 then f
         else if 1 / 2 < d then f + 1
         else if even f then f else f + 1)"

definition fl64 :: "rat \<Rightarrow> error + rat" where
  "fl64 x =
     (if x = 0 then Inr 0
      else
        let a = \<bar>x\<bar>;
            e = max (ilog2 a - 52) (- 1074);
            m = round_half_even (a / pow2 e);
            y = of_int m * pow2 e
        in if 1024 < bitlen m + e then Inl OverflowError
           else Inr (if x < 0 then - y else y))"

definition py_int :: "rat \<Rightarrow> int" where
  \<comment> \<open>\<^verbatim>\<open>int(x)\<close> of a finite float: truncation towards zero\<close>
  "py_int x = (if 0 \<le> x then \<lfloor>x\<rfloor> else \<lceil>x\<rceil>)"

definition new_height :: "int \<Rightarrow> int \<Rightarrow> int \<Rightarrow> error + int" where
  \<comment> \<open>lines 73-74: \<^verbatim>\<open>aspect_ratio = height / width; int(resize_width * aspect_ratio)\<close>\<close>
  "new_height resize_width height width =
     (if width = 0 then Inl ZeroDivisionError
      else case fl64 (of_int height / of_int width) of
        Inl e \<Rightarrow> Inl e
      | Inr aspect_ratio \<Rightarrow>
          (case fl64 (of_int resize_width) of
             Inl e \<Rightarrow> Inl e
           | Inr w \<Rightarrow>
               (case fl64 (w * aspect_ratio) of
                  Inl e \<Rightarrow> Inl e
                | Inr h \<Rightarrow> Inr (py_int h))))"

subsection \<open>Frames, the capture object and file names\<close>

text \<open>
  A decoded frame is its shape and its pixel content; the content is opaque here (the
  decoder, the interpolation of \<^verbatim>\<open>cv2.resize\<close> and the JPEG encoder are OpenCV's).
\<close>

record frame =
  fwidth :: int
  fheight :: int
  content :: nat

text \<open>
  The object returned by \<^verbatim>\<open>cv2.VideoCapture\<close>: whether it opened, the stream
  properties read at lines 43-46 (already converted by \<^verbatim>\<open>int\<close>), and the frames that
  \<^verbatim>\<open>cap.read()\<close> hands out before it first returns \<^verbatim>\<open>ret = False\<close>.
\<close>

record capture =
  isOpened :: bool
  frame_count :: int
  width :: int
  height :: int
  frames :: "frame list"

definition cv2_resize :: "frame \<Rightarrow> int \<Rightarrow> int \<Rightarrow> error + frame" where
  \<comment> \<open>\<^verbatim>\<open>cv2.resize(frame, (w, h))\<close>: the requested size, or an error for an empty size\<close>
  "cv2_resize f w h =
     (if w \<le> 0 \<or> h \<le> 0 then Inl Cv2Error else Inr (f\<lparr>fwidth := w, fheight := h\<rparr>))"

definition digit_char :: "nat \<Rightarrow> char" where
  "digit_char d = char_of (48 + d)"

fun str_nat :: "nat \<Rightarrow> string" where
  "str_nat n = (if n < 10 then [digit_char n] else str_nat (n div 10) @ [digit_char (n mod 10)])"

declare str_nat.simps [simp del]

definition fmt_05d :: "nat \<Rightarrow> string" where
  \<comment> \<open>\<^verbatim>\<open>f"{n:05d}"\<close>: at least five digits, padded with zeros on the left\<close>
  "fmt_05d n = replicate (5 - length (str_nat n)) CHR ''0'' @ str_nat n"

definition frame_filename :: "nat \<Rightarrow> string" where
  \<comment> \<open>line 78\<close>
  "frame_filename saved_count = ''frame_'' @ fmt_05d saved_count @ ''.jpg''"

definition truthy :: "int option \<Rightarrow> bool" where
  \<comment> \<open>\<^verbatim>\<open>if max_frames:\<close> and \<^verbatim>\<open>if resize_width:\<close> test truthiness: None and 0 are false\<close>
  "truthy v = (case v of None \<Rightarrow> False | Some n \<Rightarrow> n \<noteq> 0)"

subsection \<open>The sampling loop and \<^verbatim>\<open>extract_frames\<close>\<close>

text \<open>
  The state of the \<^verbatim>\<open>while True\<close> loop of lines 65-90: the file system, the calls
  of \<^verbatim>\<open>cv2.imwrite\<close> made so far (path and frame, in order), \<^verbatim>\<open>frame_idx\<close> and
  \<^verbatim>\<open>saved_count\<close>. The loop consumes the frames the capture still has to deliver.
\<close>

type_synonym writes = "(path \<times> frame) list"

definition resize_step :: "capture \<Rightarrow> int option \<Rightarrow> frame \<Rightarrow> error + frame" where
  \<comment> \<open>lines 72-75\<close>
  "resize_step cap resize_width f =
     (if truthy resize_width then
        (case new_height (the resize_width) (height cap) (width cap) of
           Inl e \<Rightarrow> Inl e
         | Inr nh \<Rightarrow> cv2_resize f (the resize_width) nh)
      else Inr f)"

fun sample_loop ::
  "capture \<Rightarrow> path \<Rightarrow> int \<Rightarrow> int option \<Rightarrow> int option \<Rightarrow>
   frame list \<Rightarrow> int \<Rightarrow> nat \<Rightarrow> frame fs \<Rightarrow> writes \<Rightarrow> frame fs \<times> writes \<times> (error + nat)" where
  "sample_loop cap images_path frame_interval max_frames resize_width
       [] frame_idx saved_count fs ws = (fs, ws, Inr saved_count)"
| "sample_loop cap images_path frame_interval max_frames resize_width
       (f # rest) frame_idx saved_count fs ws =
     (if frame_interval = 0 then (fs, ws, Inl ZeroDivisionError)
      else if frame_idx mod frame_interval = 0 then
        (case resize_step cap resize_width f of
           Inl e \<Rightarrow> (fs, ws, Inl e)
         | Inr f' \<Rightarrow>
             let filepath = images_path @ [frame_filename saved_count];
                 fs' = imwrite fs filepath f';
                 ws' = ws @ [(filepath, f')];
                 saved_count' = Suc saved_count
             in if truthy max_frames \<and> the max_frames \<le> int saved_count'
                then (fs', ws', Inr saved_count')
                else sample_loop cap images_path frame_interval max_frames resize_width
                       rest (frame_idx + 1) saved_count' fs' ws')
      else sample_loop cap images_path frame_interval max_frames resize_width
             rest (frame_idx + 1) saved_count fs ws)"

text \<open>
  \<^verbatim>\<open>extract_frames\<close> (lines 13-99). \<open>VideoCapture\<close> is \<^verbatim>\<open>cv2.VideoCapture\<close>,
  \<open>output_dir\<close> is \<^verbatim>\<open>Path(output_dir)\<close>. The result is the final file system, the
  \<^verbatim>\<open>cv2.imwrite\<close> calls, and either the error or the returned \<^verbatim>\<open>images_path\<close>.
  Console output is not modelled, except that line 55 (the frame count that is only
  printed) divides by \<^verbatim>\<open>frame_interval\<close> and so raises when it is 0.
\<close>

definition extract_frames ::
  "(string \<Rightarrow> capture) \<Rightarrow> frame fs \<Rightarrow> string \<Rightarrow> path \<Rightarrow> int \<Rightarrow> int option \<Rightarrow> int option \<Rightarrow>
   frame fs \<times> writes \<times> (error + path)" where
  "extract_frames VideoCapture fs video_path output_dir frame_interval max_frames resize_width =
     (let images_path = output_dir @ [''input''] in
      case mkdir_p fs images_path of
        Inl e \<Rightarrow> (fs, [], Inl e)
      | Inr fs1 \<Rightarrow>
          let cap = VideoCapture video_path in
          if \<not> isOpened cap then (fs1, [], Inl (SystemExit 1))
          else if frame_interval = 0 then (fs1, [], Inl ZeroDivisionError)
          else
            (case sample_loop cap images_path frame_interval max_frames resize_width
                    (frames cap) 0 0 fs1 [] of
               (fs2, ws, Inl e) \<Rightarrow> (fs2, ws, Inl e)
             | (fs2, ws, Inr saved_count) \<Rightarrow> (fs2, ws, Inr images_path)))"

subsection \<open>Notions used to state the sampler's properties\<close>

text \<open>\<open>ceil_div t k\<close> is \<open>t / k\<close> rounded up, for \<open>0 < k\<close>.\<close>

definition ceil_div :: "int \<Rightarrow> int \<Rightarrow> int" where
  "ceil_div t k = (t + k - 1) div k"

text \<open>
  Reading a file name back: \<open>frame_number\<close> is the decimal number between the prefix
  \<^verbatim>\<open>frame_\<close> (6 characters) and the suffix \<^verbatim>\<open>.jpg\<close> (4 characters).
\<close>

definition digit_val :: "char \<Rightarrow> nat" where
  "digit_val c = of_char c - 48"

definition nat_of_digits :: "string \<Rightarrow> nat" where
  "nat_of_digits s = foldl (\<lambda>a c. 10 * a + digit_val c) 0 s"

definition frame_number :: "string \<Rightarrow> nat" where
  "frame_number name = nat_of_digits (take (length name - 10) (drop 6 name))"

text \<open>
  Two concrete captures: a stream of five 640x480 frames under the name
  \<^verbatim>\<open>video.mp4\<close> (any other name fails to open), and a stream of two 3x2 frames.
\<close>

definition closed_capture :: capture where
  "closed_capture = \<lparr>isOpened = False, frame_count = 0, width = 0, height = 0, frames = []\<rparr>"

definition five_frames :: "string \<Rightarrow> capture" where
  "five_frames video_path =
     (if video_path = ''video.mp4''
      then \<lparr>isOpened = True, frame_count = 5, width = 640, height = 480,
             frames = map (\<lambda>i. \<lparr>fwidth = 640, fheight = 480, content = i\<rparr>) [0, 1, 2, 3, 4]\<rparr>
      else closed_capture)"

definition tiny_frames :: "string \<Rightarrow> capture" where
  "tiny_frames video_path =
     \<lparr>isOpened = True, frame_count = 2, width = 3, height = 2,
       frames = map (\<lambda>i. \<lparr>fwidth = 3, fheight = 2, content = i\<rparr>) [0, 1]\<rparr>"

section \<open>SfM invoker: \<^verbatim>\<open>Training/Scripts/run_colmap.py\<close>\<close>















subsection \<open>Notions used to state the invoker's properties\<close>




section \<open>Masking bridge: \<^verbatim>\<open>Training/Scripts/auto_mask_bridge.py\<close>\<close>

subsection \<open>Images and masks\<close>

text \<open>
  What \<^verbatim>\<open>cv2.imread\<close> returns is an array of shape (rows, columns, 3) of unsigned
  bytes: a list of rows of pixels. A mask is a list of rows of booleans. A file holds
  \<open>Some\<close> image, or \<open>None\<close> when its bytes do not decode. The codecs are
  not modelled: a written file holds the array that was passed to \<^verbatim>\<open>cv2.imwrite\<close>.
\<close>

type_synonym pixel = "8 word \<times> 8 word \<times> 8 word"
type_synonym image = "pixel list list"
type_synonym mask = "bool list list"

definition black :: pixel where
  "black = (0, 0, 0)"

definition shape2 :: "'a list list \<Rightarrow> nat \<times> nat" where
  \<comment> \<open>\<^verbatim>\<open>a.shape[:2]\<close>: rows and columns\<close>
  "shape2 a = (length a, case a of [] \<Rightarrow> 0 | r # _ \<Rightarrow> length r)"

definition imread :: "image option fs \<Rightarrow> path \<Rightarrow> image option" where
  \<comment> \<open>\<^verbatim>\<open>cv2.imread\<close> returns None, and does not raise, for what it cannot read\<close>
  "imread fs p = (case map_of fs p of Some (File (Some img)) \<Rightarrow> Some img | _ \<Rightarrow> None)"

definition zeros_like :: "image \<Rightarrow> image" where
  \<comment> \<open>\<^verbatim>\<open>np.zeros_like(img)\<close>\<close>
  "zeros_like img = map (map (\<lambda>p. black)) img"

definition zeros_mask :: "nat \<times> nat \<Rightarrow> mask" where
  \<comment> \<open>\<^verbatim>\<open>np.zeros(shape, dtype=bool)\<close>\<close>
  "zeros_mask s = replicate (fst s) (replicate (snd s) False)"

definition mask_or :: "mask \<Rightarrow> mask \<Rightarrow> mask" where
  \<comment> \<open>\<^verbatim>\<open>combined_mask |= m\<close>, for two arrays of one shape\<close>
  "mask_or c m = map2 (map2 (\<or>)) c m"

text \<open>
  \<^verbatim>\<open>cv2.resize(m.astype(np.uint8), (w, h)).astype(bool)\<close>: an array of \<open>h\<close> rows and
  \<open>w\<close> columns whose entries OpenCV's interpolation determines; \<open>interp m (w, h) y x\<close>
  says whether the entry at row \<open>y\<close>, column \<open>x\<close> is non-zero. An empty source or target
  raises.
\<close>

type_synonym interpolation = "mask \<Rightarrow> nat \<times> nat \<Rightarrow> nat \<Rightarrow> nat \<Rightarrow> bool"

definition resized :: "interpolation \<Rightarrow> mask \<Rightarrow> nat \<times> nat \<Rightarrow> mask" where
  "resized interp m dsize =
     map (\<lambda>y. map (\<lambda>x. interp m dsize y x) [0..<fst dsize]) [0..<snd dsize]"

definition resize_mask :: "interpolation \<Rightarrow> mask \<Rightarrow> nat \<times> nat \<Rightarrow> error + mask" where
  "resize_mask interp m dsize =
     (if fst (shape2 m) = 0 \<or> snd (shape2 m) = 0 \<or> fst dsize = 0 \<or> snd dsize = 0
      then Inl Cv2Error
      else Inr (resized interp m dsize))"

fun combine_masks :: "interpolation \<Rightarrow> mask \<Rightarrow> mask list \<Rightarrow> error + mask" where
  \<comment> \<open>the loop of lines 62-67\<close>
  "combine_masks interp combined_mask [] = Inr combined_mask"
| "combine_masks interp combined_mask (m # ms) =
     (if shape2 m \<noteq> shape2 combined_mask then
        (case resize_mask interp m (snd (shape2 combined_mask), fst (shape2 combined_mask)) of
           Inl e \<Rightarrow> Inl e
         | Inr m' \<Rightarrow> combine_masks interp (mask_or combined_mask m') ms)
      else combine_masks interp (mask_or combined_mask m) ms)"

definition black_out :: "image \<Rightarrow> mask \<Rightarrow> image" where
  \<comment> \<open>line 71: \<^verbatim>\<open>img[~combined_mask] = [0, 0, 0]\<close>\<close>
  "black_out img combined_mask =
     map2 (map2 (\<lambda>p b. if b then p else black)) img combined_mask"

subsection \<open>The external models and the log\<close>

text \<open>
  The detector (\<^verbatim>\<open>det_model.predict\<close>) and the segmentation model
  (\<^verbatim>\<open>seg_model\<close>) are the environment's: they read the file themselves, may raise,
  and return a list of results, of which the code takes the first. A detection result
  is its list of boxes, a segmentation result its masks, or None. The detector is the one
  already restricted to the prompt by \<^verbatim>\<open>set_classes\<close>; loading the two models
  (lines 13-25) precedes everything modelled here.
\<close>

type_synonym 'b detector = "image option fs \<Rightarrow> path \<Rightarrow> error + 'b list list"
type_synonym 'b segmenter =
  "image option fs \<Rightarrow> path \<Rightarrow> 'b list \<Rightarrow> error + mask list option list"

text \<open>The lines printed inside the loop (lines 46, 76 and 79).\<close>

datatype event =
    NoDetection nat nat string string
  | Processed nat nat string
  | ErrorProcessing string error

subsection \<open>One image, the loop, and \<^verbatim>\<open>process_images\<close>\<close>

definition process_one ::
  "'b detector \<Rightarrow> 'b segmenter \<Rightarrow> interpolation \<Rightarrow> string \<Rightarrow> path \<Rightarrow> nat \<Rightarrow>
   image option fs \<times> event list \<Rightarrow> nat \<times> path \<Rightarrow> image option fs \<times> event list" where
  \<comment> \<open>the body of the loop, lines 37-79, with \<open>n = len(files)\<close>\<close>
  "process_one det seg interp prompt output_dir n st entry =
     (let (fs, events) = st; (i, file) = entry; name = last file in
      case det fs file of
        Inl e \<Rightarrow> (fs, events @ [ErrorProcessing name e])
      | Inr det_results \<Rightarrow>
          (case imread fs file of
             None \<Rightarrow> (fs, events)
           | Some img \<Rightarrow>
               (case det_results of
                  [] \<Rightarrow> (fs, events @ [ErrorProcessing name IndexError])
                | boxes # _ \<Rightarrow>
                    if length boxes = 0 then
                      (imwrite fs (output_dir @ [name]) (Some (zeros_like img)),
                       events @ [NoDetection (i + 1) n prompt name])
                    else
                      (case seg fs file boxes of
                         Inl e \<Rightarrow> (fs, events @ [ErrorProcessing name e])
                       | Inr [] \<Rightarrow> (fs, events @ [ErrorProcessing name IndexError])
                       | Inr (masks # _) \<Rightarrow>
                           (case (case masks of
                                    None \<Rightarrow> Inr (zeros_mask (shape2 img))
                                  | Some ms \<Rightarrow>
                                      combine_masks interp (zeros_mask (shape2 img)) ms) of
                              Inl e \<Rightarrow> (fs, events @ [ErrorProcessing name e])
                            | Inr combined_mask \<Rightarrow>
                                (imwrite fs (output_dir @ [name])
                                   (Some (black_out img combined_mask)),
                                 events @ [Processed (i + 1) n name]))))))"





subsection \<open>Notions used to state the bridge's properties\<close>

text \<open>
  An array with at least one row and one column, all rows of one length.
\<close>

definition is_array :: "'a list list \<Rightarrow> bool" where
  "is_array a = (0 < fst (shape2 a) \<and> 0 < snd (shape2 a) \<and> (\<forall>r \<in> set a. length r = snd (shape2 a)))"

text \<open>
  The mask as it enters the union: resized to the image's shape when its own differs.
  \<open>masked img ms\<close> is the image whose pixel at row \<open>y\<close>, column \<open>x\<close> is that of \<open>img\<close>
  when some mask of \<open>ms\<close> is set there, and black otherwise.
\<close>

definition fit_mask :: "interpolation \<Rightarrow> nat \<times> nat \<Rightarrow> mask \<Rightarrow> mask" where
  "fit_mask interp s m = (if shape2 m \<noteq> s then resized interp m (snd s, fst s) else m)"

definition masked :: "image \<Rightarrow> mask list \<Rightarrow> image" where
  "masked img ms =
     map (\<lambda>y. map (\<lambda>x. if list_ex (\<lambda>m. m ! y ! x) ms then img ! y ! x else black)
                [0..<snd (shape2 img)])
         [0..<fst (shape2 img)]"

text \<open>
  The masks of a segmentation result, none when \<^verbatim>\<open>masks\<close> is None. \<open>failure\<close>
  is the exception, if any, that the statements inside the \<^verbatim>\<open>try\<close> block raise for
  a file: the detector's, the segmentation model's, that of taking the first of an empty
  list of results, or that of a mask resize.
\<close>

definition mask_list :: "mask list option \<Rightarrow> mask list" where
  "mask_list masks = (case masks of None \<Rightarrow> [] | Some ms \<Rightarrow> ms)"


text \<open>
  A concrete setting: a directory \<^verbatim>\<open>in\<close> with a file \<^verbatim>\<open>a.jpg\<close> that does not decode
  and a 2x2 image \<^verbatim>\<open>b.png\<close>; a detector that finds one box in \<^verbatim>\<open>a.jpg\<close> and
  in \<^verbatim>\<open>b.png\<close> and none elsewhere, and one that raises on \<^verbatim>\<open>a.jpg\<close>; a
  segmentation model that returns a 2x2 mask and a 1x2 mask; nearest-neighbour interpolation.
\<close>

definition photo :: image where
  "photo = [[(1, 2, 3), (4, 5, 6)], [(7, 8, 9), (10, 11, 12)]]"

definition bridge_fs :: "image option fs" where
  "bridge_fs = [([''in''], Dir), ([''in'', ''a.jpg''], File None),
                ([''in'', ''b.png''], File (Some photo)), ([''in'', ''notes.txt''], File None)]"

definition no_boxes :: "nat detector" where
  "no_boxes fs file = Inr [[]]"

definition one_box :: "nat detector" where
  "one_box fs file = Inr [[0]]"


definition two_masks :: "nat segmenter" where
  "two_masks fs file boxes = Inr [Some [[[True, False], [False, False]], [[False, True]]]]"

definition nearest :: interpolation where
  "nearest m dsize y x =
     m ! (y * length m div snd dsize) ! (x * length (hd m) div fst dsize)"

section \<open>Properties of the frame sampler\<close>

subsection \<open>Auxiliary facts\<close>

lemma truthy_simps [simp]: "truthy None = False" "truthy (Some n) = (n \<noteq> 0)"
  by (simp_all add: truthy_def)

lemma sample_loop_zero_cap:
  "sample_loop cap ip k (Some 0) rw frs idx cnt fs ws = sample_loop cap ip k None rw frs idx cnt fs ws"
  by (induction frs arbitrary: idx cnt fs ws) (simp_all add: Let_def split: sum.splits)

lemma map_of_append_new:
  "map_of fs p = None \<Longrightarrow> map_of (fs @ [(p, v)]) q = (if q = p then Some v else map_of fs q)"
  by (auto simp: map_add_def split: option.splits)

lemma mkdirs_preserves_dir:
  "mkdirs fs t ps = Inr fs' \<Longrightarrow> map_of fs q = Some Dir \<Longrightarrow> map_of fs' q = Some Dir"
proof (induction ps arbitrary: fs)
  case Nil then show ?case by simp
next
  case (Cons p ps)
  show ?case
  proof (cases "map_of fs p")
    case None
    with Cons.prems have "mkdirs (fs @ [(p, Dir)]) t ps = Inr fs'" by simp
    moreover have "map_of (fs @ [(p, Dir)]) q = Some Dir"
      using map_of_append_new[OF None, of Dir q] None Cons.prems(2) by auto
    ultimately show ?thesis by (rule Cons.IH)
  next
    case (Some n)
    with Cons.prems show ?thesis by (cases n) (auto intro: Cons.IH)
  qed
qed

lemma mkdirs_creates:
  "mkdirs fs t ps = Inr fs' \<Longrightarrow> q \<in> set ps \<Longrightarrow> map_of fs' q = Some Dir"
proof (induction ps arbitrary: fs)
  case Nil then show ?case by simp
next
  case (Cons p ps)
  show ?case
  proof (cases "map_of fs p")
    case None
    with Cons.prems have step: "mkdirs (fs @ [(p, Dir)]) t ps = Inr fs'" by simp
    show ?thesis
    proof (cases "q = p")
      case True
      have h: "map_of (fs @ [(p, Dir)]) p = Some Dir" using map_of_append_new[OF None, of Dir p] by simp
      show ?thesis using mkdirs_preserves_dir[OF step h] True by simp
    next
      case False
      with Cons.prems(2) have "q \<in> set ps" by simp
      with step show ?thesis by (rule Cons.IH)
    qed
  next
    case (Some n)
    show ?thesis
    proof (cases n)
      case Dir
      with Some Cons.prems have step: "mkdirs fs t ps = Inr fs'" by simp
      show ?thesis
      proof (cases "q = p")
        case True
        have h: "map_of fs p = Some Dir" using Some Dir by simp
        show ?thesis using mkdirs_preserves_dir[OF step h] True by simp
      next
        case False
        with Cons.prems(2) have "q \<in> set ps" by simp
        with step show ?thesis by (rule Cons.IH)
      qed
    next
      case (File c)
      with Some Cons.prems show ?thesis by simp
    qed
  qed
qed

lemma in_tl_prefixes: "p \<noteq> [] \<Longrightarrow> p \<in> set (tl (prefixes p))"
  by (cases p) (auto simp: image_iff)

lemma mkdir_p_is_dir: "mkdir_p fs p = Inr fs' \<Longrightarrow> is_dir fs' p"
  unfolding mkdir_p_def is_dir_def
  by (cases "p = []") (auto dest: mkdirs_creates in_tl_prefixes)

lemma mkdir_p_changes: "mkdir_p fs p = Inr fs' \<Longrightarrow> \<not> is_dir fs p \<Longrightarrow> fs' \<noteq> fs"
  using mkdir_p_is_dir by blast

lemma ceil_div_step:
  assumes "0 < (k::int)"
  shows "ceil_div (i + 1) k = ceil_div i k + (if i mod k = 0 then 1 else 0)"
proof -
  define q r where "q = i div k" and "r = i mod k"
  have i: "i = q * k + r" by (simp add: q_def r_def)
  have r: "0 \<le> r" "r < k" using assms by (simp_all add: r_def)
  have a: "(i + 1 + k - 1) div k = q + 1"
  proof -
    have "i + 1 + k - 1 = r + (q + 1) * k" by (simp add: i algebra_simps)
    then have "(i + 1 + k - 1) div k = (r + (q + 1) * k) div k" by (simp only:)
    also have "\<dots> = q + 1" using r assms by (simp add: div_pos_pos_trivial)
    finally show ?thesis .
  qed
  have b: "(i + k - 1) div k = q + (if r = 0 then 0 else 1)"
  proof (cases "r = 0")
    case True
    have "i + k - 1 = (k - 1) + q * k" by (simp add: i True)
    then have "(i + k - 1) div k = ((k - 1) + q * k) div k" by (simp only:)
    also have "\<dots> = q" using assms by (simp add: div_pos_pos_trivial)
    finally show ?thesis using True by simp
  next
    case False
    have "i + k - 1 = (r - 1) + (q + 1) * k" by (simp add: i algebra_simps)
    then have "(i + k - 1) div k = ((r - 1) + (q + 1) * k) div k" by (simp only:)
    also have "\<dots> = q + 1" using False r assms by (simp add: div_pos_pos_trivial)
    finally show ?thesis using False by simp
  qed
  show ?thesis unfolding ceil_div_def a b by (simp add: r_def)
qed

lemma ceil_div_mono: "0 < (k::int) \<Longrightarrow> i \<le> j \<Longrightarrow> ceil_div i k \<le> ceil_div j k"
  unfolding ceil_div_def by (intro zdiv_mono1) simp_all

lemma sample_loop_names:
  "sample_loop cap ip k mf rw frs idx cnt fs ws = (fs', ws', r) \<Longrightarrow>
   \<exists>n. map fst ws' = map fst ws @ map (\<lambda>i. ip @ [frame_filename i]) [cnt..<cnt + n]
      \<and> length ws' = length ws + n \<and> (\<forall>c. r = Inr c \<longrightarrow> c = cnt + n)"
proof (induction frs arbitrary: idx cnt fs ws)
  case Nil
  then show ?case by (intro exI[of _ 0]) auto
next
  case (Cons f rest)
  show ?case
  proof (cases "k \<noteq> 0 \<and> idx mod k = 0")
    case False
    then consider "k = 0" | "k \<noteq> 0" "idx mod k \<noteq> 0" by auto
    then show ?thesis
    proof cases
      case 1
      with Cons.prems show ?thesis by (intro exI[of _ 0]) auto
    next
      case 2
      with Cons.prems have "sample_loop cap ip k mf rw rest (idx + 1) cnt fs ws = (fs', ws', r)"
        by simp
      then show ?thesis by (rule Cons.IH)
    qed
  next
    case emit: True
    show ?thesis
    proof (cases "resize_step cap rw f")
      case (Inl e)
      with emit Cons.prems show ?thesis by (intro exI[of _ 0]) auto
    next
      case (Inr f')
      let ?fp = "ip @ [frame_filename cnt]"
      show ?thesis
      proof (cases "truthy mf \<and> the mf \<le> int (Suc cnt)")
        case True
        with emit Inr Cons.prems have "ws' = ws @ [(?fp, f')]" "r = Inr (Suc cnt)"
          by (auto simp: Let_def)
        then show ?thesis by (intro exI[of _ 1]) auto
      next
        case False
        with emit Inr Cons.prems have
          "sample_loop cap ip k mf rw rest (idx + 1) (Suc cnt) (imwrite fs ?fp f') (ws @ [(?fp, f')])
             = (fs', ws', r)"
          by (auto simp: Let_def)
        from Cons.IH[OF this] obtain n where
          n: "map fst ws' = map fst (ws @ [(?fp, f')]) @ map (\<lambda>i. ip @ [frame_filename i]) [Suc cnt..<Suc cnt + n]"
             "length ws' = length (ws @ [(?fp, f')]) + n" "\<forall>c. r = Inr c \<longrightarrow> c = Suc cnt + n"
          by blast
        have "[cnt..<cnt + Suc n] = cnt # [Suc cnt..<Suc cnt + n]"
          by (simp add: upt_conv_Cons)
        with n show ?thesis by (intro exI[of _ "Suc n"]) auto
      qed
    qed
  qed
qed

lemma sample_loop_count:
  "0 < k \<Longrightarrow> sample_loop cap ip k mf rw frs idx cnt fs ws = (fs', ws', Inr c) \<Longrightarrow>
   (\<not> truthy mf \<longrightarrow> int c = int cnt + (ceil_div (idx + int (length frs)) k - ceil_div idx k)) \<and>
   (truthy mf \<and> int cnt < the mf \<longrightarrow>
      int c = min (int cnt + (ceil_div (idx + int (length frs)) k - ceil_div idx k)) (the mf))"
proof (induction frs arbitrary: idx cnt fs ws)
  case Nil
  then show ?case by auto
next
  case (Cons f rest)
  have len: "idx + int (length (f # rest)) = (idx + 1) + int (length rest)" by simp
  have mono: "ceil_div (idx + 1) k \<le> ceil_div ((idx + 1) + int (length rest)) k"
    using Cons.prems(1) by (intro ceil_div_mono) simp_all
  show ?case
  proof (cases "idx mod k = 0")
    case False
    with Cons.prems have "sample_loop cap ip k mf rw rest (idx + 1) cnt fs ws = (fs', ws', Inr c)"
      by simp
    from Cons.IH[OF Cons.prems(1) this] show ?thesis
      unfolding len using ceil_div_step[OF Cons.prems(1), of idx] False by simp
  next
    case emit: True
    have step: "ceil_div (idx + 1) k = ceil_div idx k + 1"
      using ceil_div_step[OF Cons.prems(1), of idx] emit by simp
    show ?thesis
    proof (cases "resize_step cap rw f")
      case (Inl e)
      with emit Cons.prems show ?thesis by auto
    next
      case (Inr f')
      let ?fp = "ip @ [frame_filename cnt]"
      show ?thesis
      proof (cases "truthy mf \<and> the mf \<le> int (Suc cnt)")
        case True
        with emit Inr Cons.prems have "c = Suc cnt" by (auto simp: Let_def)
        with True mono step show ?thesis unfolding len by auto
      next
        case False
        with emit Inr Cons.prems have
          "sample_loop cap ip k mf rw rest (idx + 1) (Suc cnt) (imwrite fs ?fp f') (ws @ [(?fp, f')])
             = (fs', ws', Inr c)"
          by (auto simp: Let_def)
        from Cons.IH[OF Cons.prems(1) this] False show ?thesis
          unfolding len step by auto
      qed
    qed
  qed
qed

lemma nat_of_digits_snoc: "nat_of_digits (s @ [c]) = 10 * nat_of_digits s + digit_val c"
  by (simp add: nat_of_digits_def)

lemma digit_val_digit_char: "d < 10 \<Longrightarrow> digit_val (digit_char d) = d"
  by (simp add: digit_val_def digit_char_def)

lemma nat_of_digits_str_nat: "nat_of_digits (str_nat n) = n"
proof (induction n rule: str_nat.induct)
  case (1 n)
  show ?case
  proof (cases "n < 10")
    case True
    then show ?thesis
      by (subst str_nat.simps) (simp add: nat_of_digits_def digit_val_digit_char)
  next
    case False
    with 1 have "nat_of_digits (str_nat (n div 10)) = n div 10" by simp
    with False show ?thesis
      by (subst str_nat.simps) (simp add: nat_of_digits_snoc digit_val_digit_char)
  qed
qed

lemma nat_of_digits_zeros: "nat_of_digits (replicate k CHR ''0'' @ s) = nat_of_digits s"
proof -
  have "foldl (\<lambda>a c. 10 * a + digit_val c) 0 (replicate k CHR ''0'') = 0"
    by (induction k) (simp_all add: digit_val_def)
  then show ?thesis by (simp add: nat_of_digits_def)
qed

lemma frame_number_filename: "frame_number (frame_filename n) = n"
  by (simp add: frame_number_def frame_filename_def fmt_05d_def
      nat_of_digits_zeros nat_of_digits_str_nat)

lemma resize_step_shape:
  assumes "truthy rw" "resize_step cap rw f = Inr f'"
  shows "fwidth f' = the rw \<and> new_height (the rw) (height cap) (width cap) = Inr (fheight f')"
  using assms
  by (auto simp: resize_step_def cv2_resize_def split: sum.splits if_splits)

lemma sample_loop_resized:
  assumes "truthy rw"
    and "sample_loop cap ip k mf rw frs idx cnt fs ws = (fs', ws', r)"
    and "\<forall>(p, f) \<in> set ws.
           fwidth f = the rw \<and> new_height (the rw) (height cap) (width cap) = Inr (fheight f)"
  shows "\<forall>(p, f) \<in> set ws'.
           fwidth f = the rw \<and> new_height (the rw) (height cap) (width cap) = Inr (fheight f)"
  using assms(2,3)
proof (induction frs arbitrary: idx cnt fs ws)
  case Nil
  then show ?case by simp
next
  case (Cons f rest)
  show ?case
  proof (cases "k \<noteq> 0 \<and> idx mod k = 0")
    case False
    then consider "k = 0" | "k \<noteq> 0" "idx mod k \<noteq> 0" by auto
    then show ?thesis
    proof cases
      case 1
      with Cons.prems show ?thesis by auto
    next
      case 2
      with Cons.prems(1) have "sample_loop cap ip k mf rw rest (idx + 1) cnt fs ws = (fs', ws', r)"
        by simp
      then show ?thesis using Cons.prems(2) by (rule Cons.IH)
    qed
  next
    case emit: True
    show ?thesis
    proof (cases "resize_step cap rw f")
      case (Inl e)
      with emit Cons.prems show ?thesis by auto
    next
      case (Inr f')
      let ?fp = "ip @ [frame_filename cnt]"
      have inv: "\<forall>(p, g) \<in> set (ws @ [(?fp, f')]).
           fwidth g = the rw \<and> new_height (the rw) (height cap) (width cap) = Inr (fheight g)"
        using Cons.prems(2) resize_step_shape[OF assms(1) Inr] by auto
      show ?thesis
      proof (cases "truthy mf \<and> the mf \<le> int (Suc cnt)")
        case True
        with emit Inr Cons.prems(1) have eq: "ws' = ws @ [(?fp, f')]" by (auto simp: Let_def)
        show ?thesis unfolding eq by (rule inv)
      next
        case False
        with emit Inr Cons.prems(1) have
          "sample_loop cap ip k mf rw rest (idx + 1) (Suc cnt) (imwrite fs ?fp f') (ws @ [(?fp, f')])
             = (fs', ws', r)"
          by (auto simp: Let_def)
        then show ?thesis using inv by (rule Cons.IH)
      qed
    qed
  qed
qed

lemma extract_frames_cases:
  obtains e where "extract_frames VC fs vp out k mf rw = (fs, [], Inl e)"
  | fs1 e where "extract_frames VC fs vp out k mf rw = (fs1, [], Inl e)"
  | fs1 fs2 ws r where "mkdir_p fs (out @ [''input'']) = Inr fs1" "isOpened (VC vp)" "k \<noteq> 0"
      "sample_loop (VC vp) (out @ [''input'']) k mf rw (frames (VC vp)) 0 0 fs1 [] = (fs2, ws, r)"
      "extract_frames VC fs vp out k mf rw =
         (fs2, ws, case r of Inl e \<Rightarrow> Inl e | Inr c \<Rightarrow> Inr (out @ [''input'']))"
proof (cases "mkdir_p fs (out @ [''input''])")
  case (Inl e)
  then have "extract_frames VC fs vp out k mf rw = (fs, [], Inl e)"
    by (simp add: extract_frames_def)
  then show ?thesis by (rule that(1))
next
  case (Inr fs1)
  show ?thesis
  proof (cases "isOpened (VC vp) \<and> k \<noteq> 0")
    case False
    with Inr have "\<exists>e. extract_frames VC fs vp out k mf rw = (fs1, [], Inl e)"
      by (auto simp: extract_frames_def Let_def)
    then show ?thesis using that(2) by blast
  next
    case True
    obtain fs2 ws r where
      l: "sample_loop (VC vp) (out @ [''input'']) k mf rw (frames (VC vp)) 0 0 fs1 [] = (fs2, ws, r)"
      by (metis prod_cases3)
    have "extract_frames VC fs vp out k mf rw =
         (fs2, ws, case r of Inl e \<Rightarrow> Inl e | Inr c \<Rightarrow> Inr (out @ [''input'']))"
      using Inr True l by (simp add: extract_frames_def Let_def split: sum.splits)
    with Inr True l show ?thesis using that(3) by blast
  qed
qed

subsection \<open>The claims about the frame sampler\<close>

text \<open>
  C1, as the code has it. The loop emits the frame at every decode index divisible by the
  stride, index 0 included, so a stream of \<open>T\<close> frames yields \<open>T / k\<close> rounded up, not
  down: when the call returns, it has emitted \<open>ceil_div T k\<close> frames without a cap, and
  the minimum of that and \<open>N\<close> with a cap \<open>N \<ge> 1\<close>.
\<close>

theorem extract_frames_emitted_count:
  assumes "0 < k"
    and "case max_frames of None \<Rightarrow> True | Some N \<Rightarrow> 1 \<le> N"
    and "snd (snd (extract_frames VC fs vp out k max_frames rw)) = Inr p"
  shows "int (length (fst (snd (extract_frames VC fs vp out k max_frames rw)))) =
     (case max_frames of
        None \<Rightarrow> ceil_div (int (length (frames (VC vp)))) k
      | Some N \<Rightarrow> min (ceil_div (int (length (frames (VC vp)))) k) N)"
proof (cases rule: extract_frames_cases[of VC fs vp out k max_frames rw])
  case (1 e)
  with assms(3) show ?thesis by simp
next
  case (2 fs1 e)
  with assms(3) show ?thesis by simp
next
  case (3 fs1 fs2 ws r)
  from assms(3) 3(5) obtain c where r: "r = Inr c" by (cases r) auto
  from sample_loop_names[OF 3(4)] r have len: "length ws = c" by auto
  have cd0: "ceil_div 0 k = 0" using assms(1) by (simp add: ceil_div_def)
  from sample_loop_count[OF assms(1) 3(4)[unfolded r]] assms(2) cd0
  have "int c = (case max_frames of
        None \<Rightarrow> ceil_div (int (length (frames (VC vp)))) k
      | Some N \<Rightarrow> min (ceil_div (int (length (frames (VC vp)))) k) N)"
    by (cases max_frames) auto
  with len 3(5) show ?thesis by simp
qed

theorem extract_frames_emitted_count_witness:
  "(0::int) < 2
   \<and> snd (snd (extract_frames five_frames [] ''video.mp4'' [''data''] 2 (Some 2) None))
       = Inr [''data'', ''input'']
   \<and> int (length (fst (snd (extract_frames five_frames [] ''video.mp4'' [''data''] 2 (Some 2) None))))
       = 2"
proof -
  have h: "snd (snd (extract_frames five_frames [] ''video.mp4'' [''data''] 2 (Some 2) None))
       = Inr [''data'', ''input'']"
    by code_simp
  have l: "length (frames (five_frames ''video.mp4'')) = 5" by code_simp
  have "int (length (fst (snd (extract_frames five_frames [] ''video.mp4'' [''data''] 2 (Some 2) None))))
       = 2"
    using extract_frames_emitted_count[of 2 "Some 2" five_frames "[]" "''video.mp4''" "[''data'']"
        None "[''data'', ''input'']"] h l
    by (simp add: ceil_div_def)
  with h show ?thesis by simp
qed

text \<open>
  C1 as stated fails: a stream of 5 frames sampled with stride 2 and no cap yields the
  frames of index 0, 2 and 4, that is 3 frames, while \<open>5 div 2 = 2\<close>.
\<close>

theorem extract_frames_floor_counterexample:
  "length (frames (five_frames ''video.mp4'')) = 5
   \<and> length (fst (snd (extract_frames five_frames [] ''video.mp4'' [''data''] 2 None None))) = 3
   \<and> (3::int) \<noteq> 5 div 2"
  by code_simp

text \<open>
  C2, as the code has it. With a resize width \<open>w\<close> that is set (and not 0, which the
  truthiness test of line 72 takes for unset), every frame handed to
  \<^verbatim>\<open>cv2.imwrite\<close> has width \<open>w\<close> and the height that lines 73-74 compute:
  \<^verbatim>\<open>int(w * (H / W))\<close>, the binary64 product truncated towards zero, where \<open>H\<close> and
  \<open>W\<close> are the stream's height and width properties.
\<close>

theorem extract_frames_resized_shape:
  assumes "w \<noteq> 0"
    and "(p, f) \<in> set (fst (snd (extract_frames VC fs vp out k max_frames (Some w))))"
  shows "fwidth f = w \<and> new_height w (height (VC vp)) (width (VC vp)) = Inr (fheight f)"
proof (cases rule: extract_frames_cases[of VC fs vp out k max_frames "Some w"])
  case (1 e)
  with assms(2) show ?thesis by simp
next
  case (2 fs1 e)
  with assms(2) show ?thesis by simp
next
  case (3 fs1 fs2 ws r)
  have t: "truthy (Some w)" using assms(1) by simp
  have "\<forall>(p, f) \<in> set ws. fwidth f = the (Some w)
          \<and> new_height (the (Some w)) (height (VC vp)) (width (VC vp)) = Inr (fheight f)"
    by (rule sample_loop_resized[OF t 3(4)]) simp
  moreover have "(p, f) \<in> set ws" using assms(2) 3(5) by simp
  ultimately show ?thesis by auto
qed

theorem extract_frames_resized_shape_witness:
  "(320::int) \<noteq> 0
   \<and> ([''data'', ''input'', ''frame_00001.jpg''], \<lparr>fwidth = 320, fheight = 240, content = 2\<rparr>)
       \<in> set (fst (snd (extract_frames five_frames [] ''video.mp4'' [''data''] 2 None (Some 320))))
   \<and> fwidth \<lparr>fwidth = 320, fheight = 240, content = 2\<rparr> = 320
   \<and> new_height 320 (height (five_frames ''video.mp4'')) (width (five_frames ''video.mp4''))
       = Inr (fheight \<lparr>fwidth = 320, fheight = 240, content = 2\<rparr>)"
proof -
  have h: "([''data'', ''input'', ''frame_00001.jpg''], \<lparr>fwidth = 320, fheight = 240, content = 2\<rparr>)
       \<in> set (fst (snd (extract_frames five_frames [] ''video.mp4'' [''data''] 2 None (Some 320))))"
    by code_simp
  have w: "(320::int) \<noteq> 0" by simp
  from extract_frames_resized_shape[OF w h] h w show ?thesis by simp
qed

text \<open>
  C2 as stated fails: for a 3x2 stream and resize width 4 the emitted frames are 4x2,
  since \<^verbatim>\<open>int(4 * (2 / 3))\<close> is \<open>int(2.67) = 2\<close>, while \<open>4 * 2 / 3\<close> rounds to 3.
\<close>

theorem extract_frames_round_counterexample:
  "map (\<lambda>(p, f). (fwidth f, fheight f))
       (fst (snd (extract_frames tiny_frames [] ''v'' [''data''] 1 None (Some 4))))
     = [(4, 2), (4, 2)]
   \<and> round (4 * 2 / 3 :: rat) = 3"
proof
  show "map (\<lambda>(p, f). (fwidth f, fheight f))
       (fst (snd (extract_frames tiny_frames [] ''v'' [''data''] 1 None (Some 4))))
     = [(4, 2), (4, 2)]"
    by code_simp
  show "round (4 * 2 / 3 :: rat) = 3" unfolding round_def by (rule floor_unique) simp_all
qed

text \<open>
  C3. When the capture does not open (and the output directory could be made, so that
  the open is attempted at all), the call ends with exit status 1, the
  \<^verbatim>\<open>sys.exit(1)\<close> of line 40 (the spec's StreamOpenError), no frame has been passed
  to \<^verbatim>\<open>cv2.imwrite\<close>, and the file system is the one \<^verbatim>\<open>mkdir\<close> left.
\<close>

theorem extract_frames_open_failure:
  assumes "\<not> isOpened (VC vp)"
    and "mkdir_p fs (out @ [''input'']) = Inr fs1"
  shows "extract_frames VC fs vp out k max_frames rw = (fs1, [], Inl (SystemExit 1))"
  using assms by (simp add: extract_frames_def)

theorem extract_frames_open_failure_witness:
  "\<not> isOpened (five_frames ''missing.mp4'')
   \<and> mkdir_p ([] :: frame fs) ([''data''] @ [''input''])
       = Inr [([''data''], Dir), ([''data'', ''input''], Dir)]
   \<and> extract_frames five_frames [] ''missing.mp4'' [''data''] 10 None None
       = ([([''data''], Dir), ([''data'', ''input''], Dir)], [], Inl (SystemExit 1))"
proof -
  have a: "\<not> isOpened (five_frames ''missing.mp4'')" by code_simp
  have b: "mkdir_p ([] :: frame fs) ([''data''] @ [''input''])
             = Inr [([''data''], Dir), ([''data'', ''input''], Dir)]"
    by code_simp
  from extract_frames_open_failure[where VC = five_frames and vp = "''missing.mp4''"
      and fs = "[]" and out = "[''data'']" and k = 10 and max_frames = None and rw = None, OF a b]
    a b
  show ?thesis by simp
qed

text \<open>
  C4. The paths passed to \<^verbatim>\<open>cv2.imwrite\<close> are, in order,
  \<^verbatim>\<open>input/frame_00000.jpg\<close>, \<^verbatim>\<open>input/frame_00001.jpg\<close>, \<open>\<dots>\<close>: the \<open>i\<close>-th emitted
  frame gets the name made from \<open>i\<close>, whatever the stride, the cap and the outcome of the
  call, and the numbers read back from the names are \<open>0, 1, \<dots>, n - 1\<close>. The number is
  padded with zeros to five digits.
\<close>

theorem extract_frames_filenames:
  "map fst (fst (snd (extract_frames VC fs vp out k max_frames rw)))
     = map (\<lambda>i. out @ [''input''] @ [frame_filename i])
         [0..<length (fst (snd (extract_frames VC fs vp out k max_frames rw)))]
   \<and> map (frame_number \<circ> last \<circ> fst) (fst (snd (extract_frames VC fs vp out k max_frames rw)))
     = [0..<length (fst (snd (extract_frames VC fs vp out k max_frames rw)))]
   \<and> frame_filename 0 = ''frame_00000.jpg'' \<and> frame_filename 1 = ''frame_00001.jpg''"
proof -
  let ?ws = "fst (snd (extract_frames VC fs vp out k max_frames rw))"
  have names: "map fst ?ws = map (\<lambda>i. out @ [''input''] @ [frame_filename i]) [0..<length ?ws]"
  proof (cases rule: extract_frames_cases[of VC fs vp out k max_frames rw])
    case (1 e)
    then show ?thesis by simp
  next
    case (2 fs1 e)
    then show ?thesis by simp
  next
    case (3 fs1 fs2 ws r)
    from sample_loop_names[OF 3(4)] obtain n where
      "map fst ws = map (\<lambda>i. (out @ [''input'']) @ [frame_filename i]) [0..<n]" "length ws = n"
      by auto
    with 3(5) show ?thesis by simp
  qed
  have "map (frame_number \<circ> last \<circ> fst) ?ws = map (frame_number \<circ> last) (map fst ?ws)"
    by simp
  also have "\<dots> = map (\<lambda>i. i) [0..<length ?ws]"
    unfolding names[symmetric, THEN sym] map_map
    by (rule map_cong) (simp_all add: frame_number_filename)
  finally have numbers: "map (frame_number \<circ> last \<circ> fst) ?ws = [0..<length ?ws]"
    by simp
  have padded: "frame_filename 0 = ''frame_00000.jpg'' \<and> frame_filename 1 = ''frame_00001.jpg''"
    by code_simp
  from names numbers padded show ?thesis by blast
qed

text \<open>
  C9. A cap of 0 is falsy at lines 56 and 87, so the call behaves in every respect as the
  call without a cap: of five frames sampled with stride 2 it emits three, not none.
\<close>

theorem extract_frames_zero_cap:
  "extract_frames VC fs vp out k (Some 0) rw = extract_frames VC fs vp out k None rw
   \<and> length (fst (snd (extract_frames five_frames [] ''video.mp4'' [''data''] 2 (Some 0) None)))
       = 3"
proof
  show "extract_frames VC fs vp out k (Some 0) rw = extract_frames VC fs vp out k None rw"
    by (simp add: extract_frames_def sample_loop_zero_cap Let_def split: sum.splits)
  show "length (fst (snd (extract_frames five_frames [] ''video.mp4'' [''data''] 2 (Some 0) None)))
       = 3"
    by code_simp
qed

text \<open>
  C10. The directory \<^verbatim>\<open>output_dir/input\<close> is made at line 34, before the capture is
  opened at line 37: after a call that fails because the capture does not open, the
  directory exists, and the file system has changed if it did not exist before.
\<close>

theorem extract_frames_dir_before_open:
  assumes "\<not> isOpened (VC vp)"
    and "mkdir_p fs (out @ [''input'']) = Inr fs1"
  shows "snd (snd (extract_frames VC fs vp out k max_frames rw)) = Inl (SystemExit 1)
    \<and> is_dir (fst (extract_frames VC fs vp out k max_frames rw)) (out @ [''input''])
    \<and> (\<not> is_dir fs (out @ [''input'']) \<longrightarrow> fst (extract_frames VC fs vp out k max_frames rw) \<noteq> fs)"
  using assms mkdir_p_is_dir[OF assms(2)] mkdir_p_changes[OF assms(2)]
  by (simp add: extract_frames_def)

theorem extract_frames_dir_before_open_witness:
  "\<not> isOpened (five_frames ''missing.mp4'')
   \<and> mkdir_p ([] :: frame fs) ([''data''] @ [''input''])
       = Inr [([''data''], Dir), ([''data'', ''input''], Dir)]
   \<and> \<not> is_dir ([] :: frame fs) ([''data''] @ [''input''])
   \<and> snd (snd (extract_frames five_frames [] ''missing.mp4'' [''data''] 10 None None))
       = Inl (SystemExit 1)
   \<and> is_dir (fst (extract_frames five_frames [] ''missing.mp4'' [''data''] 10 None None))
       ([''data''] @ [''input''])
   \<and> fst (extract_frames five_frames [] ''missing.mp4'' [''data''] 10 None None) \<noteq> []"
proof -
  have a: "\<not> isOpened (five_frames ''missing.mp4'')" by code_simp
  have b: "mkdir_p ([] :: frame fs) ([''data''] @ [''input''])
             = Inr [([''data''], Dir), ([''data'', ''input''], Dir)]"
    by code_simp
  have c: "\<not> is_dir ([] :: frame fs) ([''data''] @ [''input''])" by code_simp
  from extract_frames_dir_before_open[where VC = five_frames and vp = "''missing.mp4''"
      and fs = "[]" and out = "[''data'']" and k = 10 and max_frames = None and rw = None, OF a b]
    a b c
  show ?thesis by simp
qed

section \<open>Properties of the SfM invoker\<close>

subsection \<open>Auxiliary facts\<close>









subsection \<open>The claim about the SfM invoker\<close>




section \<open>Properties of the masking bridge\<close>

subsection \<open>Auxiliary facts\<close>

lemma shape2_rows:
  assumes "0 < h" "length a = h" "\<forall>r \<in> set a. length r = w"
  shows "shape2 a = (h, w)"
  using assms by (cases a) (auto simp: shape2_def)

lemma is_array_rows:
  assumes "is_array a" "shape2 a = (h, w)"
  shows "0 < h" "0 < w" "length a = h" "\<forall>r \<in> set a. length r = w"
  using assms by (auto simp: is_array_def shape2_def)

lemma zeros_mask_rows:
  "length (zeros_mask (h, w)) = h" "\<forall>r \<in> set (zeros_mask (h, w)). length r = w"
  "y < h \<Longrightarrow> x < w \<Longrightarrow> zeros_mask (h, w) ! y ! x = False"
  by (auto simp: zeros_mask_def)

lemma resized_rows:
  "length (resized interp m (w, h)) = h" "\<forall>r \<in> set (resized interp m (w, h)). length r = w"
  by (auto simp: resized_def)

lemma mask_or_rows:
  assumes "length c = h" "\<forall>r \<in> set c. length r = w"
    and "length m = h" "\<forall>r \<in> set m. length r = w"
  shows "length (mask_or c m) = h" "\<forall>r \<in> set (mask_or c m). length r = w"
    "y < h \<Longrightarrow> x < w \<Longrightarrow> mask_or c m ! y ! x = (c ! y ! x \<or> m ! y ! x)"
proof -
  show "length (mask_or c m) = h" using assms by (simp add: mask_or_def)
  show "\<forall>r \<in> set (mask_or c m). length r = w"
    using assms by (auto simp: mask_or_def dest!: set_zip_leftD set_zip_rightD
        elim!: in_set_zipE)
  show "mask_or c m ! y ! x = (c ! y ! x \<or> m ! y ! x)" if "y < h" "x < w"
  proof -
    have "length (c ! y) = w" "length (m ! y) = w" using assms that by auto
    with assms that show ?thesis by (simp add: mask_or_def)
  qed
qed

lemma combine_masks_union:
  assumes "0 < h" "0 < w" "length c = h" "\<forall>r \<in> set c. length r = w"
    and "\<forall>m \<in> set ms. is_array m"
  shows "\<exists>r. combine_masks interp c ms = Inr r \<and> length r = h \<and> (\<forall>row \<in> set r. length row = w)
     \<and> (\<forall>y < h. \<forall>x < w.
          r ! y ! x = (c ! y ! x \<or> list_ex (\<lambda>m. m ! y ! x) (map (fit_mask interp (h, w)) ms)))"
  using assms(3-5)
proof (induction ms arbitrary: c)
  case Nil
  then show ?case by simp
next
  case (Cons m ms)
  have sc: "shape2 c = (h, w)" using assms(1) Cons.prems(1,2) by (rule shape2_rows)
  let ?m' = "fit_mask interp (h, w) m"
  have arr: "is_array m" using Cons.prems(3) by simp
  have fit: "length ?m' = h \<and> (\<forall>r \<in> set ?m'. length r = w)"
  proof (cases "shape2 m = (h, w)")
    case True
    with is_array_rows[OF arr True] show ?thesis by (simp add: fit_mask_def)
  next
    case False
    then show ?thesis using resized_rows[of interp m w h] by (simp add: fit_mask_def)
  qed
  have step: "combine_masks interp c (m # ms) = combine_masks interp (mask_or c ?m') ms"
  proof (cases "shape2 m = (h, w)")
    case True
    then show ?thesis using sc by (simp add: fit_mask_def)
  next
    case False
    obtain h' w' where s': "shape2 m = (h', w')" by (cases "shape2 m")
    from is_array_rows(1,2)[OF arr s'] assms(1,2)
    have "resize_mask interp m (w, h) = Inr (resized interp m (w, h))"
      by (simp add: resize_mask_def s')
    with False sc show ?thesis by (simp add: fit_mask_def)
  qed
  from fit Cons.prems(1,2) have
    l: "length (mask_or c ?m') = h" and r: "\<forall>r \<in> set (mask_or c ?m'). length r = w"
    by (auto intro: mask_or_rows(1) dest: mask_or_rows(2)[rule_format, rotated -1])
  from Cons.prems(3) have rest: "\<forall>m \<in> set ms. is_array m" by simp
  from Cons.IH[OF l r rest] obtain res where res:
    "combine_masks interp (mask_or c ?m') ms = Inr res" "length res = h"
    "\<forall>row \<in> set res. length row = w"
    "\<forall>y < h. \<forall>x < w. res ! y ! x =
       (mask_or c ?m' ! y ! x \<or> list_ex (\<lambda>m. m ! y ! x) (map (fit_mask interp (h, w)) ms))"
    by blast
  have "\<forall>y < h. \<forall>x < w. res ! y ! x =
       (c ! y ! x \<or> list_ex (\<lambda>m. m ! y ! x) (map (fit_mask interp (h, w)) (m # ms)))"
  proof (intro allI impI)
    fix y x assume yx: "y < h" "x < w"
    have "mask_or c ?m' ! y ! x = (c ! y ! x \<or> ?m' ! y ! x)"
      using mask_or_rows(3)[OF Cons.prems(1,2) conjunct1[OF fit] conjunct2[OF fit] yx] .
    with res(4) yx show "res ! y ! x =
       (c ! y ! x \<or> list_ex (\<lambda>m. m ! y ! x) (map (fit_mask interp (h, w)) (m # ms)))"
      by auto
  qed
  with res(1-3) step show ?case by auto
qed

lemma black_out_rows:
  assumes "length img = h" "\<forall>r \<in> set img. length r = w"
    and "length c = h" "\<forall>r \<in> set c. length r = w"
  shows "black_out img c =
     map (\<lambda>y. map (\<lambda>x. if c ! y ! x then img ! y ! x else black) [0..<w]) [0..<h]"
proof (rule nth_equalityI)
  show "length (black_out img c) =
     length (map (\<lambda>y. map (\<lambda>x. if c ! y ! x then img ! y ! x else black) [0..<w]) [0..<h])"
    using assms by (simp add: black_out_def)
next
  fix y assume "y < length (black_out img c)"
  then have y: "y < h" using assms by (simp add: black_out_def)
  then have ly: "length (img ! y) = w" "length (c ! y) = w" using assms by auto
  have "black_out img c ! y = map2 (\<lambda>p b. if b then p else black) (img ! y) (c ! y)"
    using y assms by (simp add: black_out_def)
  also have "\<dots> = map (\<lambda>x. if c ! y ! x then img ! y ! x else black) [0..<w]"
    using ly by (intro nth_equalityI) simp_all
  finally show "black_out img c ! y =
     map (\<lambda>y. map (\<lambda>x. if c ! y ! x then img ! y ! x else black) [0..<w]) [0..<h] ! y"
    using y by simp
qed

lemma masked_union:
  assumes "is_array img" "\<forall>m \<in> set ms. is_array m"
    and "combine_masks interp (zeros_mask (shape2 img)) ms = Inr c"
  shows "black_out img c = masked img (map (fit_mask interp (shape2 img)) ms)"
proof -
  obtain h w where s: "shape2 img = (h, w)" by (cases "shape2 img")
  note im = is_array_rows[OF assms(1) s]
  from combine_masks_union[OF im(1,2) zeros_mask_rows(1,2) assms(2), of interp] assms(3)
  have c: "length c = h" "\<forall>row \<in> set c. length row = w"
    "\<forall>y < h. \<forall>x < w. c ! y ! x =
       (zeros_mask (h, w) ! y ! x \<or> list_ex (\<lambda>m. m ! y ! x) (map (fit_mask interp (h, w)) ms))"
    by (auto simp: s)
  have "black_out img c =
     map (\<lambda>y. map (\<lambda>x. if c ! y ! x then img ! y ! x else black) [0..<w]) [0..<h]"
    using im(3,4) c(1,2) by (rule black_out_rows)
  also have "\<dots> = masked img (map (fit_mask interp (shape2 img)) ms)"
    unfolding masked_def s fst_conv snd_conv
    by (intro map_cong refl) (simp add: c(3) zeros_mask_rows(3))
  finally show ?thesis .
qed

lemma masked_no_masks:
  assumes "is_array img"
  shows "black_out img (zeros_mask (shape2 img)) = masked img []"
proof -
  have "combine_masks interp (zeros_mask (shape2 img)) [] = Inr (zeros_mask (shape2 img))"
    for interp by simp
  from masked_union[OF assms _ this] show ?thesis by simp
qed

lemma imwrite_lookup:
  assumes "is_dir fs d" "map_of fs (d @ [n]) \<noteq> Some Dir"
  shows "map_of (imwrite fs (d @ [n]) c) (d @ [n]) = Some (File c)"
  using assms by (simp add: imwrite_def update_conv')



subsection \<open>The claims about the masking bridge\<close>

text \<open>
  C6. For an image that \<^verbatim>\<open>cv2.imread\<close> reads and in which the detector finds no
  box, the step logs the \<open>NoDetection\<close> line (not an error line) and writes, under the
  image's name in the output directory, an image with the rows and columns of the input
  and every pixel black.
\<close>

theorem process_one_no_boxes:
  assumes "det fs path = Inr ([] # further)" and "imread fs path = Some img"
    and "is_dir fs output_dir" and "map_of fs (output_dir @ [last path]) \<noteq> Some Dir"
  shows "process_one det seg interp prompt output_dir n (fs, events) (i, path)
       = (imwrite fs (output_dir @ [last path]) (Some (zeros_like img)),
          events @ [NoDetection (i + 1) n prompt (last path)])
     \<and> map_of (fst (process_one det seg interp prompt output_dir n (fs, events) (i, path)))
         (output_dir @ [last path]) = Some (File (Some (zeros_like img)))
     \<and> zeros_like img = map (\<lambda>row. replicate (length row) black) img"
proof -
  have a: "process_one det seg interp prompt output_dir n (fs, events) (i, path)
       = (imwrite fs (output_dir @ [last path]) (Some (zeros_like img)),
          events @ [NoDetection (i + 1) n prompt (last path)])"
    using assms(1,2) by (simp add: process_one_def Let_def)
  have b: "zeros_like img = map (\<lambda>row. replicate (length row) black) img"
    by (simp add: zeros_like_def map_replicate_const)
  from a imwrite_lookup[OF assms(3,4)] b show ?thesis by simp
qed

theorem process_one_no_boxes_witness:
  "no_boxes bridge_fs [''in'', ''b.png''] = Inr ([] # [])
   \<and> imread bridge_fs [''in'', ''b.png''] = Some photo
   \<and> is_dir bridge_fs [''in'']
   \<and> map_of bridge_fs ([''in''] @ [last [''in'', ''b.png'']]) \<noteq> Some Dir
   \<and> map_of (fst (process_one no_boxes two_masks nearest ''bridge'' [''in''] 2 (bridge_fs, [])
                    (1, [''in'', ''b.png''])))
        ([''in''] @ [last [''in'', ''b.png'']])
       = Some (File (Some [[(0, 0, 0), (0, 0, 0)], [(0, 0, 0), (0, 0, 0)]]))"
proof -
  have a: "no_boxes bridge_fs [''in'', ''b.png''] = Inr ([] # [])" by (simp add: no_boxes_def)
  have b: "imread bridge_fs [''in'', ''b.png''] = Some photo" by code_simp
  have c: "is_dir bridge_fs [''in'']" by code_simp
  have d: "map_of bridge_fs ([''in''] @ [last [''in'', ''b.png'']]) \<noteq> Some Dir" by code_simp
  have z: "zeros_like photo = [[(0, 0, 0), (0, 0, 0)], [(0, 0, 0), (0, 0, 0)]]" by code_simp
  from process_one_no_boxes[where det = no_boxes and fs = bridge_fs
      and path = "[''in'', ''b.png'']" and further = "[]" and img = photo
      and output_dir = "[''in'']" and seg = two_masks and interp = nearest and prompt = "''bridge''" and n = 2
      and events = "[]" and i = 1, OF a b c d]
  have "map_of (fst (process_one no_boxes two_masks nearest ''bridge'' [''in''] 2 (bridge_fs, [])
                    (1, [''in'', ''b.png''])))
        ([''in''] @ [last [''in'', ''b.png'']]) = Some (File (Some (zeros_like photo)))"
    by blast
  with a b c d z show ?thesis by simp
qed

text \<open>
  C7. For an image that \<^verbatim>\<open>cv2.imread\<close> reads, with at least one detected box and a
  segmentation result, the step writes the image in which a pixel is the source's where
  some mask is set, each mask first resized to the image's shape when its own differs,
  and black elsewhere. Images and masks are arrays: rows of one length, not empty.
\<close>

theorem process_one_masked:
  assumes "det fs path = Inr (boxes # further)" and "boxes \<noteq> []"
    and "imread fs path = Some img" and "is_array img"
    and "seg fs path boxes = Inr (masks # others)"
    and "\<forall>m \<in> set (mask_list masks). is_array m"
    and "is_dir fs output_dir" and "map_of fs (output_dir @ [last path]) \<noteq> Some Dir"
  shows "process_one det seg interp prompt output_dir n (fs, events) (i, path)
       = (imwrite fs (output_dir @ [last path])
            (Some (masked img (map (fit_mask interp (shape2 img)) (mask_list masks)))),
          events @ [Processed (i + 1) n (last path)])
     \<and> map_of (fst (process_one det seg interp prompt output_dir n (fs, events) (i, path)))
         (output_dir @ [last path])
       = Some (File (Some (masked img (map (fit_mask interp (shape2 img)) (mask_list masks)))))"
proof -
  let ?out = "masked img (map (fit_mask interp (shape2 img)) (mask_list masks))"
  obtain h w where s: "shape2 img = (h, w)" by (cases "shape2 img")
  note im = is_array_rows[OF assms(4) s]
  from combine_masks_union[OF im(1,2) zeros_mask_rows(1,2) assms(6), of interp]
  obtain c where c: "combine_masks interp (zeros_mask (shape2 img)) (mask_list masks) = Inr c"
    by (auto simp: s)
  from masked_union[OF assms(4,6) c] have bo: "black_out img c = ?out" .
  have cm: "(case masks of None \<Rightarrow> Inr (zeros_mask (shape2 img))
             | Some ms \<Rightarrow> combine_masks interp (zeros_mask (shape2 img)) ms) = Inr c"
    using c by (cases masks) (simp_all add: mask_list_def)
  have a: "process_one det seg interp prompt output_dir n (fs, events) (i, path)
       = (imwrite fs (output_dir @ [last path]) (Some ?out),
          events @ [Processed (i + 1) n (last path)])"
    using assms(1,2,3,5) cm bo by (simp add: process_one_def Let_def)
  from a imwrite_lookup[OF assms(7,8)] show ?thesis by simp
qed

theorem process_one_masked_witness:
  "one_box bridge_fs [''in'', ''b.png''] = Inr ([0] # [])
   \<and> imread bridge_fs [''in'', ''b.png''] = Some photo
   \<and> two_masks bridge_fs [''in'', ''b.png''] [0]
       = Inr (Some [[[True, False], [False, False]], [[False, True]]] # [])
   \<and> map_of (fst (process_one one_box two_masks nearest ''bridge'' [''in''] 2 (bridge_fs, [])
                    (1, [''in'', ''b.png''])))
        ([''in''] @ [last [''in'', ''b.png'']])
       = Some (File (Some [[(1, 2, 3), (4, 5, 6)], [(0, 0, 0), (10, 11, 12)]]))"
proof -
  let ?ms = "Some [[[True, False], [False, False]], [[False, True]]]"
  have a: "one_box bridge_fs [''in'', ''b.png''] = Inr ([0] # [])" by (simp add: one_box_def)
  have a': "[0 :: nat] \<noteq> []" by simp
  have b: "imread bridge_fs [''in'', ''b.png''] = Some photo" by code_simp
  have b': "is_array photo" by code_simp
  have s: "two_masks bridge_fs [''in'', ''b.png''] [0] = Inr (?ms # [])"
    by (simp add: two_masks_def)
  have s': "\<forall>m \<in> set (mask_list ?ms). is_array m" by code_simp
  have c: "is_dir bridge_fs [''in'']" by code_simp
  have d: "map_of bridge_fs ([''in''] @ [last [''in'', ''b.png'']]) \<noteq> Some Dir" by code_simp
  have z: "masked photo (map (fit_mask nearest (shape2 photo)) (mask_list ?ms))
             = [[(1, 2, 3), (4, 5, 6)], [(0, 0, 0), (10, 11, 12)]]"
    by code_simp
  from process_one_masked[where det = one_box and fs = bridge_fs
      and path = "[''in'', ''b.png'']" and boxes = "[0]" and further = "[]" and img = photo
      and output_dir = "[''in'']" and seg = two_masks and masks = ?ms and others = "[]"
      and interp = nearest
      and prompt = "''bridge''" and n = 2 and events = "[]" and i = 1, OF a a' b b' s s' c d]
  have "map_of (fst (process_one one_box two_masks nearest ''bridge'' [''in''] 2 (bridge_fs, [])
                    (1, [''in'', ''b.png''])))
        ([''in''] @ [last [''in'', ''b.png'']])
       = Some (File (Some (masked photo (map (fit_mask nearest (shape2 photo)) (mask_list ?ms)))))"
    by blast
  with a b s z show ?thesis by simp
qed





end
